theory Spec2Isabelle
  imports Main
begin

section \<open>Text primitives\<close>

text \<open>
  Python \<open>str\<close> values are modelled as \<open>string\<close>. The character classes and the case
  mapping below are those of Python on ASCII text: \<open>str.lower\<close>, \<open>str.upper\<close> and
  \<open>re.IGNORECASE\<close> act on the 26 letters, \<open>\s\<close>, \<open>str.strip()\<close> and \<open>str.split()\<close>
  use the ASCII white space of \<open>str.isspace\<close> (codes 9 to 13 and 28 to 32), \<open>\d\<close> is
  \<open>0\<close> to \<open>9\<close> and \<open>\w\<close> is a letter, a digit or the underscore.
\<close>

definition dquote :: char where
  "dquote = CHR 0x22"

definition newline :: char where
  "newline = CHR 0x0A"

definition upper_letters :: string where
  "upper_letters = ''ABCDEFGHIJKLMNOPQRSTUVWXYZ''"

definition lower_letters :: string where
  "lower_letters = ''abcdefghijklmnopqrstuvwxyz''"

definition is_upper :: "char \<Rightarrow> bool" where
  "is_upper c = (c \<in> set upper_letters)"

definition is_lower :: "char \<Rightarrow> bool" where
  "is_lower c = (c \<in> set lower_letters)"

definition is_digit :: "char \<Rightarrow> bool" where
  "is_digit c = (c \<in> set ''0123456789'')"

definition is_word :: "char \<Rightarrow> bool" where
  "is_word c = (is_upper c \<or> is_lower c \<or> is_digit c \<or> c = CHR ''_'')"

definition is_space :: "char \<Rightarrow> bool" where
  "is_space c = (c \<in> set [CHR 0x09, CHR 0x0A, CHR 0x0B, CHR 0x0C, CHR 0x0D,
                            CHR 0x1C, CHR 0x1D, CHR 0x1E, CHR 0x1F, CHR 0x20])"

definition to_lower :: "char \<Rightarrow> char" where
  "to_lower c = (case map_of (zip upper_letters lower_letters) c of Some l \<Rightarrow> l | None \<Rightarrow> c)"

definition to_upper :: "char \<Rightarrow> char" where
  "to_upper c = (case map_of (zip lower_letters upper_letters) c of Some u \<Rightarrow> u | None \<Rightarrow> c)"

text \<open>\<open>s.lower()\<close>\<close>

definition lower :: "string \<Rightarrow> string" where
  "lower s = map to_lower s"

text \<open>\<open>s.upper()\<close>\<close>

definition upper :: "string \<Rightarrow> string" where
  "upper s = map to_upper s"

text \<open>\<open>s.capitalize()\<close>: the first character in upper case, all the others in lower case.\<close>

fun capitalize :: "string \<Rightarrow> string" where
  "capitalize [] = []"
| "capitalize (c # cs) = to_upper c # map to_lower cs"

text \<open>\<open>s.strip()\<close> and \<open>s.strip(chars)\<close>\<close>

definition strip_where :: "(char \<Rightarrow> bool) \<Rightarrow> string \<Rightarrow> string" where
  "strip_where P s = rev (dropWhile P (rev (dropWhile P s)))"

definition strip :: "string \<Rightarrow> string" where
  "strip s = strip_where is_space s"

definition strip_chars :: "string \<Rightarrow> string \<Rightarrow> string" where
  "strip_chars chars s = strip_where (\<lambda>c. c \<in> set chars) s"

text \<open>\<open>sub in s\<close>\<close>

fun contains :: "string \<Rightarrow> string \<Rightarrow> bool" where
  "contains sub [] = (sub = [])"
| "contains sub (c # t) = (take (length sub) (c # t) = sub \<or> contains sub t)"

text \<open>
  \<open>s.replace(old, new)\<close>: the occurrences of \<open>old\<close> are replaced from left to right,
  without overlap; an empty \<open>old\<close> matches before every character and at the end.
\<close>

function py_replace :: "string \<Rightarrow> string \<Rightarrow> string \<Rightarrow> string" where
  "py_replace old new s =
     (if old = [] then new @ concat (map (\<lambda>c. c # new) s)
      else if s = [] then []
      else if take (length old) s = old then new @ py_replace old new (drop (length old) s)
      else hd s # py_replace old new (tl s))"
  by pat_completeness auto
termination
  by (relation "measure (\<lambda>(old, new, s). length s)") auto

declare py_replace.simps [simp del]

text \<open>\<open>s.split()\<close>: the maximal runs of characters that are not white space.\<close>

fun split_acc :: "string \<Rightarrow> string \<Rightarrow> string list" where
  "split_acc cur [] = (if cur = [] then [] else [cur])"
| "split_acc cur (c # t) =
     (if is_space c then (if cur = [] then split_acc [] t else cur # split_acc [] t)
      else split_acc (cur @ [c]) t)"

definition py_split :: "string \<Rightarrow> string list" where
  "py_split s = split_acc [] s"

section \<open>Regular expressions\<close>

text \<open>
  The patterns of the two scripts use literals, character classes, greedy and lazy
  repetition of one class, options, alternatives, groups and the anchors \<open>^\<close> and \<open>$\<close>.
  A match state is the position in the subject, the text still to read and the groups
  captured so far. \<open>rmatch\<close> lists the states in which a pattern can end, in the order in
  which Python's backtracking matcher tries them, so that the head of the list is the
  match Python reports. The flag \<open>ic\<close> is \<open>re.IGNORECASE\<close>.
\<close>

datatype regex =
    Lit string
  | Cls "char \<Rightarrow> bool"
  | Star "char \<Rightarrow> bool"
  | LazyStar "char \<Rightarrow> bool"
  | Alt regex regex
  | Seq regex regex
  | Grp regex
  | Bol
  | Eol

type_synonym mstate = "nat \<times> string \<times> string list"

definition cls_ok :: "bool \<Rightarrow> (char \<Rightarrow> bool) \<Rightarrow> char \<Rightarrow> bool" where
  "cls_ok ic P c = (P c \<or> (ic \<and> (P (to_lower c) \<or> P (to_upper c))))"

definition lit_ok :: "bool \<Rightarrow> string \<Rightarrow> string \<Rightarrow> bool" where
  "lit_ok ic l s = (if ic then lower (take (length l) s) = lower l else take (length l) s = l)"

fun greedy :: "(char \<Rightarrow> bool) \<Rightarrow> mstate \<Rightarrow> mstate list" where
  "greedy P (p, [], g) = [(p, [], g)]"
| "greedy P (p, c # t, g) = (if P c then greedy P (Suc p, t, g) else []) @ [(p, c # t, g)]"

fun lazy :: "(char \<Rightarrow> bool) \<Rightarrow> mstate \<Rightarrow> mstate list" where
  "lazy P (p, [], g) = [(p, [], g)]"
| "lazy P (p, c # t, g) = (p, c # t, g) # (if P c then lazy P (Suc p, t, g) else [])"

fun rmatch :: "bool \<Rightarrow> regex \<Rightarrow> mstate \<Rightarrow> mstate list" where
  "rmatch ic (Lit l) (p, s, g) =
     (if lit_ok ic l s then [(p + length l, drop (length l) s, g)] else [])"
| "rmatch ic (Cls P) (p, s, g) =
     (case s of [] \<Rightarrow> [] | c # t \<Rightarrow> if cls_ok ic P c then [(Suc p, t, g)] else [])"
| "rmatch ic (Star P) st = greedy (cls_ok ic P) st"
| "rmatch ic (LazyStar P) st = lazy (cls_ok ic P) st"
| "rmatch ic (Alt a b) st = rmatch ic a st @ rmatch ic b st"
| "rmatch ic (Seq a b) st = concat (map (rmatch ic b) (rmatch ic a st))"
| "rmatch ic (Grp r) (p, s, g) =
     map (\<lambda>(p', s', g'). (p', s', g' @ [take (p' - p) s])) (rmatch ic r (p, s, g))"
| "rmatch ic Bol (p, s, g) = (if p = 0 then [(p, s, g)] else [])"
| "rmatch ic Eol (p, s, g) = (if s = [] \<or> s = [newline] then [(p, s, g)] else [])"

text \<open>\<open>x+\<close>, \<open>r?\<close> and the concatenation of several patterns.\<close>

definition Plus :: "(char \<Rightarrow> bool) \<Rightarrow> regex" where
  "Plus P = Seq (Cls P) (Star P)"

definition Opt :: "regex \<Rightarrow> regex" where
  "Opt r = Alt r (Lit [])"

fun Seqs :: "regex list \<Rightarrow> regex" where
  "Seqs [] = Lit []"
| "Seqs [r] = r"
| "Seqs (r # rs) = Seq r (Seqs rs)"

text \<open>
  The match that starts at position \<open>p\<close>, where \<open>s\<close> is the text from \<open>p\<close> on: the
  number of characters it takes and its groups. No pattern of the two scripts matches the
  empty string, and the scanning functions below step over a position where the first
  alternative found is empty.
\<close>

definition match_here :: "bool \<Rightarrow> regex \<Rightarrow> nat \<Rightarrow> string \<Rightarrow> (nat \<times> string list) option" where
  "match_here ic r p s =
     (case rmatch ic r (p, s, []) of
        [] \<Rightarrow> None
      | (p', s', g) # _ \<Rightarrow> if p' - p = 0 then None else Some (p' - p, g))"

text \<open>\<open>re.search(r, s)\<close> is not \<open>None\<close>\<close>

fun search_from :: "bool \<Rightarrow> regex \<Rightarrow> nat \<Rightarrow> string \<Rightarrow> bool" where
  "search_from ic r p [] = (rmatch ic r (p, [], []) \<noteq> [])"
| "search_from ic r p (c # t) = (rmatch ic r (p, c # t, []) \<noteq> [] \<or> search_from ic r (Suc p) t)"

definition re_search :: "bool \<Rightarrow> regex \<Rightarrow> string \<Rightarrow> bool" where
  "re_search ic r s = search_from ic r 0 s"

text \<open>
  \<open>re.sub(r, repl, s)\<close>: every match, found from left to right without overlap, is replaced
  by \<open>repl\<close> applied to its groups.
\<close>

function sub_from :: "bool \<Rightarrow> regex \<Rightarrow> (string list \<Rightarrow> string) \<Rightarrow> nat \<Rightarrow> string \<Rightarrow> string" where
  "sub_from ic r repl p [] = []"
| "sub_from ic r repl p (c # t) =
     (case match_here ic r p (c # t) of
        None \<Rightarrow> c # sub_from ic r repl (Suc p) t
      | Some (n, g) \<Rightarrow> repl g @ sub_from ic r repl (p + n) (drop (n - 1) t))"
  by pat_completeness auto
termination
  by (relation "measure (\<lambda>(ic, r, repl, p, s). length s)") auto

definition re_sub :: "bool \<Rightarrow> regex \<Rightarrow> (string list \<Rightarrow> string) \<Rightarrow> string \<Rightarrow> string" where
  "re_sub ic r repl s = sub_from ic r repl 0 s"

text \<open>\<open>re.split(r, s)\<close>: the pieces of \<open>s\<close> between the matches.\<close>

function split_from :: "bool \<Rightarrow> regex \<Rightarrow> nat \<Rightarrow> string \<Rightarrow> string \<Rightarrow> string list" where
  "split_from ic r p cur [] = [cur]"
| "split_from ic r p cur (c # t) =
     (case match_here ic r p (c # t) of
        None \<Rightarrow> split_from ic r (Suc p) (cur @ [c]) t
      | Some (n, g) \<Rightarrow> cur # split_from ic r (p + n) [] (drop (n - 1) t))"
  by pat_completeness auto
termination
  by (relation "measure (\<lambda>(ic, r, p, cur, s). length s)") auto

definition re_split :: "bool \<Rightarrow> regex \<Rightarrow> string \<Rightarrow> string list" where
  "re_split ic r s = split_from ic r 0 [] s"

text \<open>\<open>re.finditer(r, s)\<close>: the groups of every match, from left to right.\<close>

function finditer_from :: "bool \<Rightarrow> regex \<Rightarrow> nat \<Rightarrow> string \<Rightarrow> string list list" where
  "finditer_from ic r p [] = []"
| "finditer_from ic r p (c # t) =
     (case match_here ic r p (c # t) of
        None \<Rightarrow> finditer_from ic r (Suc p) t
      | Some (n, g) \<Rightarrow> g # finditer_from ic r (p + n) (drop (n - 1) t))"
  by pat_completeness auto
termination
  by (relation "measure (\<lambda>(ic, r, p, s). length s)") auto

definition re_finditer :: "bool \<Rightarrow> regex \<Rightarrow> string \<Rightarrow> string list list" where
  "re_finditer ic r s = finditer_from ic r 0 s"

text \<open>Group \<open>i\<close> of a match, counted from 1.\<close>

definition group :: "string list \<Rightarrow> nat \<Rightarrow> string" where
  "group g i = (if 0 < i \<and> i \<le> length g then g ! (i - 1) else [])"

section \<open>optimize\_svg.py\<close>

subsection \<open>optimize\_svg\<close>

definition not_dquote :: "char \<Rightarrow> bool" where
  "not_dquote c = (c \<noteq> dquote)"

definition not_gt :: "char \<Rightarrow> bool" where
  "not_gt c = (c \<noteq> CHR ''>'')"

definition any_char :: "char \<Rightarrow> bool" where
  "any_char c = True"

text \<open>\<^verbatim>\<open>name="[^"]*"\<close>, for \<open>viewBox\<close>, \<open>width\<close> and \<open>height\<close>\<close>

definition attr_pat :: "string \<Rightarrow> regex" where
  "attr_pat name = Seqs [Lit (name @ [CHR ''='', dquote]), Star not_dquote, Lit [dquote]]"

text \<open>\<^verbatim>\<open>\s*name="[^"]*"\<close>, for \<open>xmlns:figma\<close> and \<open>id\<close>\<close>

definition spaced_attr_pat :: "string \<Rightarrow> regex" where
  "spaced_attr_pat name =
     Seqs [Star is_space, Lit (name @ [CHR ''='', dquote]), Star not_dquote, Lit [dquote]]"

text \<open>\<^verbatim>\<open>\s*data-[a-zA-Z-]*="[^"]*"\<close>\<close>

definition data_attr_pat :: regex where
  "data_attr_pat =
     Seqs [Star is_space, Lit ''data-'',
           Star (\<lambda>c. is_lower c \<or> is_upper c \<or> c = CHR ''-''),
           Lit [CHR ''='', dquote], Star not_dquote, Lit [dquote]]"

text \<open>\<^verbatim>\<open><\?xml[^>]*\?>\s*\<close>\<close>

definition xml_decl_pat :: regex where
  "xml_decl_pat = Seqs [Lit ''<?xml'', Star not_gt, Lit ''?>'', Star is_space]"

text \<open>\<^verbatim>\<open><!DOCTYPE[^>]*>\s*\<close>\<close>

definition doctype_pat :: regex where
  "doctype_pat = Seqs [Lit ''<!DOCTYPE'', Star not_gt, Lit ''>'', Star is_space]"

text \<open>\<^verbatim>\<open><!--.*?-->\<close> with \<open>re.DOTALL\<close>\<close>

definition comment_pat :: regex where
  "comment_pat = Seqs [Lit ''<!--'', LazyStar any_char, Lit ''-->'']"

text \<open>\<^verbatim>\<open><g[^>]*>\s*</g>\<close>\<close>

definition empty_group_pat :: regex where
  "empty_group_pat = Seqs [Lit ''<g'', Star not_gt, Lit ''>'', Star is_space, Lit ''</g>'']"

text \<open>\<^verbatim>\<open>\n\s*\n\<close>\<close>

definition blank_lines_pat :: regex where
  "blank_lines_pat = Seqs [Lit [newline], Star is_space, Lit [newline]]"

text \<open>\<^verbatim>\<open>>\s+<\<close>\<close>

definition between_tags_pat :: regex where
  "between_tags_pat = Seqs [Lit ''>'', Plus is_space, Lit ''<'']"

definition const :: "string \<Rightarrow> string list \<Rightarrow> string" where
  "const v g = v"

text \<open>
  The three blocks of \<open>optimize_svg\<close>, in the order of the source: the canvas size
  (\<open>viewBox\<close>, \<open>width\<close>, \<open>height\<close>), the removals with the white space clean-up and the
  final \<open>strip\<close>, and the default fill.
\<close>

definition force_canvas :: "string \<Rightarrow> string" where
  "force_canvas svg_content =
     (let c1 = (if contains ''viewBox'' svg_content
                then re_sub False (attr_pat ''viewBox'')
                       (const (''viewBox='' @ [dquote] @ ''0 0 24 24'' @ [dquote])) svg_content
                else py_replace ''<svg ''
                       (''<svg viewBox='' @ [dquote] @ ''0 0 24 24'' @ [dquote] @ '' '') svg_content);
          c2 = (if contains ''width='' c1
                then re_sub False (attr_pat ''width'')
                       (const (''width='' @ [dquote] @ ''24'' @ [dquote])) c1
                else py_replace ''<svg '' (''<svg width='' @ [dquote] @ ''24'' @ [dquote] @ '' '') c1);
          c3 = (if contains ''height='' c2
                then re_sub False (attr_pat ''height'')
                       (const (''height='' @ [dquote] @ ''24'' @ [dquote])) c2
                else py_replace ''<svg '' (''<svg height='' @ [dquote] @ ''24'' @ [dquote] @ '' '') c2)
      in c3)"

definition clean_up :: "string \<Rightarrow> string" where
  "clean_up svg_content =
     (let c4 = re_sub False data_attr_pat (const []) svg_content;
          c5 = re_sub False xml_decl_pat (const []) c4;
          c6 = re_sub False doctype_pat (const []) c5;
          c7 = re_sub False comment_pat (const []) c6;
          c8 = re_sub False empty_group_pat (const []) c7;
          c9 = re_sub False (spaced_attr_pat ''xmlns:figma'') (const []) c8;
          c10 = re_sub False (spaced_attr_pat ''id'') (const []) c9;
          c11 = re_sub False blank_lines_pat (const [newline]) c10;
          c12 = re_sub False between_tags_pat (const ''><'') c11
      in strip c12)"

definition default_fill :: "string \<Rightarrow> string" where
  "default_fill svg_content =
     (if \<not> contains ''fill='' svg_content
      then py_replace ''<svg ''
             (''<svg fill='' @ [dquote] @ ''currentColor'' @ [dquote] @ '' '') svg_content
      else svg_content)"

definition optimize_svg :: "string \<Rightarrow> string" where
  "optimize_svg svg_content = default_fill (clean_up (force_canvas svg_content))"

subsection \<open>to\_pascal\_case\<close>

definition is_delim :: "char \<Rightarrow> bool" where
  "is_delim c = (c = CHR ''-'' \<or> c = CHR ''_'' \<or> is_space c)"

text \<open>\<^verbatim>\<open>\.(svg|png|jpg)$\<close>, used with \<open>re.IGNORECASE\<close>\<close>

definition extension_pat :: regex where
  "extension_pat =
     Seqs [Lit ''.'', Grp (Alt (Lit ''svg'') (Alt (Lit ''png'') (Lit ''jpg''))), Eol]"

text \<open>\<^verbatim>\<open>[-_\s]+\<close>\<close>

definition delims_pat :: regex where
  "delims_pat = Plus is_delim"

text \<open>\<^verbatim>\<open>([a-z])([A-Z])\<close>, replaced by \<^verbatim>\<open>\1 \2\<close>\<close>

definition camel_pat :: regex where
  "camel_pat = Seq (Grp (Cls is_lower)) (Grp (Cls is_upper))"

definition camel_repl :: "string list \<Rightarrow> string" where
  "camel_repl g = group g 1 @ '' '' @ group g 2"

definition to_pascal_case :: "string \<Rightarrow> string" where
  "to_pascal_case name =
     (let name1 = re_sub True extension_pat (const []) name;
          words = re_split False delims_pat name1;
          expanded_words =
            concat (map (\<lambda>word. py_split (re_sub False camel_pat camel_repl word)) words)
      in concat (map capitalize (filter (\<lambda>word. word \<noteq> []) expanded_words)))"

subsection \<open>determine\_variant\<close>

text \<open>
  \<^verbatim>\<open>[-_\s]?outlined?$\<close>, \<^verbatim>\<open>[-_\s]?outline$\<close>, \<^verbatim>\<open>[-_\s]?line$\<close> and
  \<^verbatim>\<open>[-_\s]?stroke$\<close>, in this order.
\<close>

definition outlined_patterns :: "regex list" where
  "outlined_patterns =
     [Seqs [Opt (Cls is_delim), Lit ''outline'', Opt (Lit ''d''), Eol],
      Seqs [Opt (Cls is_delim), Lit ''outline'', Eol],
      Seqs [Opt (Cls is_delim), Lit ''line'', Eol],
      Seqs [Opt (Cls is_delim), Lit ''stroke'', Eol]]"

text \<open>
  The loop stops at the first pattern found in the lower-cased name; that pattern is then
  removed from the name itself.
\<close>

definition determine_variant :: "string \<Rightarrow> string \<times> bool" where
  "determine_variant name =
     (let lower_name = lower name
      in case find (\<lambda>pattern. re_search True pattern lower_name) outlined_patterns of
           Some pattern \<Rightarrow> (strip_chars ''-_'' (re_sub True pattern (const []) name), True)
         | None \<Rightarrow> (strip_chars ''-_'' name, False))"

subsection \<open>process\_icon\_file\<close>

text \<open>
  The file system is outside the model: \<open>content\<close> is the text read from the input file
  and \<open>stem\<close> the file name without its directory and last suffix. The result is the text
  written and the name of the output file; a text without \<open><svg\<close> raises \<open>ValueError\<close>.
\<close>

datatype error = ValueError

definition process_icon_file ::
  "string \<Rightarrow> string \<Rightarrow> bool option \<Rightarrow> error + (string \<times> string)" where
  "process_icon_file content stem force_outlined =
     (if \<not> contains ''<svg'' (lower content) then Inl ValueError
      else
        let optimized = optimize_svg content;
            (base_name, auto_outlined) = determine_variant stem;
            is_outlined = (case force_outlined of Some b \<Rightarrow> b | None \<Rightarrow> auto_outlined);
            pascal_name = to_pascal_case base_name;
            output_name = (if is_outlined then pascal_name @ ''Outlined.svg''
                           else pascal_name @ ''.svg'')
        in Inr (optimized, output_name))"

section \<open>browse\_icons.py\<close>

subsection \<open>is\_icon\_node and check\_outlined\_variant\<close>

definition is_dash :: "char \<Rightarrow> bool" where
  "is_dash c = (c = CHR ''-'' \<or> c = CHR ''_'')"

text \<open>
  \<^verbatim>\<open>^icon[-_]\<close>, \<^verbatim>\<open>[-_]icon$\<close>, \<^verbatim>\<open>^ic[-_]\<close>, \<^verbatim>\<open>[-_]ic$\<close> and \<^verbatim>\<open>^\d+[-_]\<close>
\<close>

definition icon_patterns :: "regex list" where
  "icon_patterns =
     [Seqs [Bol, Lit ''icon'', Cls is_dash],
      Seqs [Cls is_dash, Lit ''icon'', Eol],
      Seqs [Bol, Lit ''ic'', Cls is_dash],
      Seqs [Cls is_dash, Lit ''ic'', Eol],
      Seqs [Bol, Plus is_digit, Cls is_dash]]"

definition exclude_patterns :: "string list" where
  "exclude_patterns = [''button'', ''input'', ''card'', ''modal'', ''dialog'', ''form'']"

definition is_icon_node :: "string \<Rightarrow> string \<Rightarrow> bool" where
  "is_icon_node name node_type =
     (if upper node_type \<in> set [''PAGE'', ''DOCUMENT'', ''SECTION''] then False
      else
        let lower_name = lower name
        in if list_ex (\<lambda>pattern. re_search False pattern lower_name) icon_patterns then True
           else if upper node_type \<in> set [''COMPONENT'', ''COMPONENT_SET'', ''INSTANCE'']
                   \<and> \<not> list_ex (\<lambda>p. contains p lower_name) exclude_patterns then True
           else False)"

text \<open>
  \<^verbatim>\<open>[-_\s]outlined?$\<close>, \<^verbatim>\<open>[-_\s]outline$\<close>, \<^verbatim>\<open>[-_\s]line$\<close>, \<^verbatim>\<open>[-_\s]stroke$\<close>
  and \<^verbatim>\<open>^outline[-_\s]\<close>
\<close>

definition browse_outlined_patterns :: "regex list" where
  "browse_outlined_patterns =
     [Seqs [Cls is_delim, Lit ''outline'', Opt (Lit ''d''), Eol],
      Seqs [Cls is_delim, Lit ''outline'', Eol],
      Seqs [Cls is_delim, Lit ''line'', Eol],
      Seqs [Cls is_delim, Lit ''stroke'', Eol],
      Seqs [Bol, Lit ''outline'', Cls is_delim]]"

definition check_outlined_variant :: "string \<Rightarrow> bool" where
  "check_outlined_variant name =
     (let lower_name = lower name
      in list_ex (\<lambda>p. re_search False p lower_name) browse_outlined_patterns)"

subsection \<open>IconInfo\<close>

record IconInfo =
  name :: string
  node_id :: string
  "section" :: string
  is_outlined :: bool
  path :: string

subsection \<open>parse\_json\_metadata\<close>

text \<open>
  A decoded JSON value is an object or something else. Of an object, the model keeps the
  four keys that the code reads, \<open>name\<close>, \<open>type\<close>, \<open>id\<close> and \<open>children\<close>, each absent or
  present; as the annotations of \<open>IconInfo\<close> have it, the first three are strings when
  present, and \<open>children\<close> is a list.
\<close>

datatype json =
    JObject "string option" "string option" "string option" "json list option"
  | JOther

definition get_default :: "'a option \<Rightarrow> 'a \<Rightarrow> 'a" where
  "get_default v d = (case v of Some x \<Rightarrow> x | None \<Rightarrow> d)"

text \<open>
  The parameters \<open>path\<close> and \<open>section\<close> of the source are \<open>parent_path\<close> and
  \<open>parent_section\<close> here.
\<close>

fun parse_json_metadata :: "json \<Rightarrow> string \<Rightarrow> string \<Rightarrow> IconInfo list"
  and parse_children :: "json list \<Rightarrow> string \<Rightarrow> string \<Rightarrow> IconInfo list" where
  "parse_json_metadata JOther parent_path parent_section = []"
| "parse_json_metadata (JObject n t i ch) parent_path parent_section =
     (let nm = get_default n [];
          node_type = get_default t [];
          nid = get_default i [];
          current_section =
            (if node_type \<in> set [''PAGE'', ''FRAME'', ''SECTION''] then nm else parent_section);
          current_path = (if parent_path \<noteq> [] then parent_path @ ''/'' @ nm else nm);
          icons =
            (if is_icon_node nm node_type
             then [\<lparr>name = nm, node_id = nid, section = current_section,
                     is_outlined = check_outlined_variant nm, path = current_path\<rparr>]
             else [])
      in icons @ (case ch of None \<Rightarrow> [] | Some cs \<Rightarrow> parse_children cs current_path current_section))"
| "parse_children [] current_path current_section = []"
| "parse_children (child # cs) current_path current_section =
     parse_json_metadata child current_path current_section
       @ parse_children cs current_path current_section"

subsection \<open>parse\_xml\_metadata\<close>

text \<open>
  \<^verbatim>\<open><(\w+)[^>]*\s+name="([^"]+)"[^>]*\s+id="([^"]+)"\<close>, compiled with \<open>re.IGNORECASE\<close>
\<close>

definition node_pattern :: regex where
  "node_pattern =
     Seqs [Lit ''<'', Grp (Plus is_word), Star not_gt, Plus is_space,
           Lit (''name='' @ [dquote]), Grp (Plus not_dquote), Lit [dquote],
           Star not_gt, Plus is_space,
           Lit (''id='' @ [dquote]), Grp (Plus not_dquote), Lit [dquote]]"

text \<open>The loop over the matches, with \<open>current_section\<close> as its state.\<close>

fun xml_loop :: "string \<Rightarrow> string list list \<Rightarrow> IconInfo list" where
  "xml_loop current_section [] = []"
| "xml_loop current_section (m # ms) =
     (let node_type = group m 1;
          nm = group m 2;
          nid = group m 3
      in if upper node_type \<in> set [''FRAME'', ''PAGE'', ''SECTION''] then xml_loop nm ms
         else if is_icon_node nm node_type
         then \<lparr>name = nm, node_id = nid, section = current_section,
                is_outlined = check_outlined_variant nm,
                path = current_section @ ''/'' @ nm\<rparr> # xml_loop current_section ms
         else xml_loop current_section ms)"

definition parse_xml_metadata :: "string \<Rightarrow> IconInfo list" where
  "parse_xml_metadata content = xml_loop [] (re_finditer True node_pattern content)"

subsection \<open>parse\_figma\_metadata\<close>

text \<open>
  \<open>json.loads\<close> belongs to Python's library: its outcome on \<open>content\<close> is the
  parameter \<open>loaded\<close>, \<open>None\<close> for \<open>JSONDecodeError\<close> and \<open>Some data\<close> for the decoded
  value.
\<close>

definition parse_figma_metadata :: "json option \<Rightarrow> string \<Rightarrow> IconInfo list" where
  "parse_figma_metadata loaded content =
     (case loaded of
        Some data \<Rightarrow> parse_json_metadata data [] []
      | None \<Rightarrow> parse_xml_metadata content)"

section \<open>Words at the end of a name\<close>




section \<open>Upper-case letters of a name\<close>

text \<open>
  \<open>camel_humps s\<close>: every upper-case letter of \<open>s\<close> but its first character stands
  right after a lower-case letter.
\<close>

fun upper_follows_lower :: "char \<Rightarrow> string \<Rightarrow> bool" where
  "upper_follows_lower prev [] = True"
| "upper_follows_lower prev (c # t) = ((is_upper c \<longrightarrow> is_lower prev) \<and> upper_follows_lower c t)"

definition camel_humps :: "string \<Rightarrow> bool" where
  "camel_humps s = (case s of [] \<Rightarrow> True | c # t \<Rightarrow> upper_follows_lower c t)"

section \<open>Example inputs\<close>

text \<open>\<^verbatim>\<open><svg fill="none"><g><g></g></g></svg>\<close>\<close>

definition nested_groups_doc :: string where
  "nested_groups_doc = ''<svg fill='' @ [dquote] @ ''none'' @ [dquote] @ ''><g><g></g></g></svg>''"

text \<open>\<^verbatim>\<open><svg height="24" width="24" viewBox="0 0 24 24" fill="none">\<close>\<close>

definition normal_svg_tag :: string where
  "normal_svg_tag =
     ''<svg height='' @ [dquote] @ ''24'' @ [dquote] @ '' width='' @ [dquote] @ ''24'' @ [dquote]
     @ '' viewBox='' @ [dquote] @ ''0 0 24 24'' @ [dquote]
     @ '' fill='' @ [dquote] @ ''none'' @ [dquote] @ ''>''"

text \<open>\<^verbatim>\<open><COMPONENT name="icon-home" id="1:1"/>\<close>\<close>

definition home_tag :: string where
  "home_tag =
     ''<COMPONENT name='' @ [dquote] @ ''icon-home'' @ [dquote]
     @ '' id='' @ [dquote] @ ''1:1'' @ [dquote] @ ''/>''"

text \<open>
  \<^verbatim>\<open>["<COMPONENT name=", " id=", "1"]\<close>: a JSON array of three strings, which
  \<open>json.loads\<close> decodes to a list.
\<close>

definition json_array_text :: string where
  "json_array_text =
     ''['' @ [dquote] @ ''<COMPONENT name='' @ [dquote] @ '', '' @ [dquote] @ '' id='' @ [dquote]
     @ '', '' @ [dquote] @ ''1'' @ [dquote] @ '']''"

text \<open>
  \<^verbatim>\<open>{"type": "PAGE", "name": "Icons", "children":
     [{"type": "COMPONENT", "name": "icon-home", "id": "1:1"}]}\<close>
\<close>

definition icons_page :: json where
  "icons_page =
     JObject (Some ''Icons'') (Some ''PAGE'') None
       (Some [JObject (Some ''icon-home'') (Some ''COMPONENT'') (Some ''1:1'') None])"

text \<open>\<^verbatim>\<open>{"type": "COMPONENT", "name": "icon-home", "id": "1:1"}\<close>\<close>

definition home_node :: json where
  "home_node = JObject (Some ''icon-home'') (Some ''COMPONENT'') (Some ''1:1'') None"

text \<open>\<^verbatim>\<open><svg\<close>, a new line, \<^verbatim>\<open>id="a" >\<close>\<close>

definition id_on_next_line_doc :: string where
  "id_on_next_line_doc = ''<svg'' @ [newline] @ ''id='' @ [dquote] @ ''a'' @ [dquote] @ '' >''"

section \<open>optimize\_svg applied twice\<close>

lemma optimize_nested_once:
  "optimize_svg nested_groups_doc = normal_svg_tag @ ''<g></g></svg>''"
  by code_simp

lemma optimize_nested_twice:
  "optimize_svg (normal_svg_tag @ ''<g></g></svg>'') = normal_svg_tag @ ''</svg>''"
  by code_simp

text \<open>
  C1. On \<^verbatim>\<open><svg fill="none"><g><g></g></g></svg>\<close> the removal of empty groups takes
  away the inner group only: the result of \<open>optimize_svg\<close> still holds the empty group
  \<^verbatim>\<open><g></g>\<close>, a second application removes it, and so the two results differ.
\<close>

theorem optimize_svg_nested_groups:
  "optimize_svg nested_groups_doc = normal_svg_tag @ ''<g></g></svg>'' \<and>
   optimize_svg (optimize_svg nested_groups_doc) = normal_svg_tag @ ''</svg>'' \<and>
   optimize_svg (optimize_svg nested_groups_doc) \<noteq> optimize_svg nested_groups_doc"
  by (simp add: optimize_nested_once optimize_nested_twice)

section \<open>The name of the output file\<close>

lemma determine_variant_home_outlined:
  "determine_variant ''Home-Outlined'' = (''Home'', True)"
  by code_simp

lemma to_pascal_case_home: "to_pascal_case ''Home'' = ''Home''"
  by code_simp

text \<open>
  C3, as the code has it. For every text that holds \<open><svg\<close> in some casing, the stem
  \<open>Home-Outlined\<close> and no override give the output name \<open>HomeOutlined.svg\<close>:
  \<open>determine_variant\<close> strips the variant from the base name and reports it, and the
  name gets the suffix \<open>Outlined\<close> back.
\<close>

theorem process_home_outlined:
  "contains ''<svg'' (lower content) \<Longrightarrow>
   process_icon_file content ''Home-Outlined'' None
     = Inr (optimize_svg content, ''HomeOutlined.svg'')"
  by (simp add: process_icon_file_def determine_variant_home_outlined to_pascal_case_home)

theorem process_home_outlined_witness:
  "contains ''<svg'' (lower ''<svg></svg>'') \<and>
   process_icon_file ''<svg></svg>'' ''Home-Outlined'' None
     = Inr (optimize_svg ''<svg></svg>'', ''HomeOutlined.svg'')"
proof -
  have h: "contains ''<svg'' (lower ''<svg></svg>'')"
    by code_simp
  show ?thesis
    using h process_home_outlined [OF h] by simp
qed

text \<open>C3 as stated fails: the output name is not \<open>Home.svg\<close>.\<close>

theorem process_home_outlined_counterexample:
  "process_icon_file ''<svg></svg>'' ''Home-Outlined'' None
     = Inr (''<svg></svg>'', ''HomeOutlined.svg'') \<and>
   ''HomeOutlined.svg'' \<noteq> ''Home.svg''"
  by code_simp

section \<open>determine\_variant when no pattern matches\<close>

text \<open>
  C5, as the code has it. When none of the four patterns is found in the lower-cased
  name, the flag is false and the base name is the name with the leading and trailing
  hyphens and underscores stripped.
\<close>

theorem determine_variant_no_match:
  "\<not> list_ex (\<lambda>pattern. re_search True pattern (lower nm)) outlined_patterns \<Longrightarrow>
   determine_variant nm = (strip_chars ''-_'' nm, False)"
proof -
  assume "\<not> list_ex (\<lambda>pattern. re_search True pattern (lower nm)) outlined_patterns"
  then have "find (\<lambda>pattern. re_search True pattern (lower nm)) outlined_patterns = None"
    by (simp add: find_None_iff list_ex_iff)
  then show ?thesis
    by (simp add: determine_variant_def)
qed

theorem determine_variant_no_match_witness:
  "\<not> list_ex (\<lambda>pattern. re_search True pattern (lower ''_home-'')) outlined_patterns \<and>
   determine_variant ''_home-'' = (''home'', False)"
proof -
  have h: "\<not> list_ex (\<lambda>pattern. re_search True pattern (lower ''_home-'')) outlined_patterns"
    by code_simp
  have s: "strip_chars ''-_'' ''_home-'' = ''home''"
    by code_simp
  show ?thesis
    using h determine_variant_no_match [OF h] s by simp
qed

text \<open>C5 as stated fails: \<open>-home\<close> matches no pattern and its base name is \<open>home\<close>.\<close>

theorem determine_variant_no_match_counterexample:
  "\<not> list_ex (\<lambda>pattern. re_search True pattern (lower ''-home'')) outlined_patterns \<and>
   determine_variant ''-home'' = (''home'', False) \<and> ''home'' \<noteq> ''-home''"
  by code_simp

section \<open>Paths of the tag-based extraction\<close>

lemma home_tag_parse:
  "parse_xml_metadata home_tag
   = [\<lparr>name = ''icon-home'', node_id = ''1:1'', section = [], is_outlined = False,
        path = ''/icon-home''\<rparr>]"
  by code_simp

lemma home_node_parse:
  "parse_json_metadata home_node [] []
   = [\<lparr>name = ''icon-home'', node_id = ''1:1'', section = [], is_outlined = False,
        path = ''icon-home''\<rparr>]"
  by code_simp

text \<open>
  C6. For the tag \<^verbatim>\<open><COMPONENT name="icon-home" id="1:1"/>\<close>, with no section seen
  before it, \<open>parse_xml_metadata\<close> gives the path \<open>/icon-home\<close>, with a leading slash:
  the section is empty and the path is not the name alone. \<open>parse_json_metadata\<close>, which
  tests for an empty prefix, gives the path \<open>icon-home\<close> for the same node.
\<close>

theorem xml_path_leading_slash:
  "map path (parse_xml_metadata home_tag) = [''/icon-home''] \<and>
   map section (parse_xml_metadata home_tag) = [[]] \<and>
   map name (parse_xml_metadata home_tag) = [''icon-home''] \<and>
   ''/icon-home'' \<noteq> ''icon-home'' \<and>
   map path (parse_json_metadata home_node [] []) = [''icon-home'']"
  by (simp add: home_tag_parse home_node_parse)

section \<open>The choice between the two parsers\<close>

lemma json_array_text_parse:
  "parse_xml_metadata json_array_text
   = [\<lparr>name = '', '', node_id = '', '', section = [], is_outlined = False,
        path = ''/, ''\<rparr>]"
  by code_simp

text \<open>
  C7, as the code has it. When \<open>json.loads\<close> raises \<open>JSONDecodeError\<close> the result is
  that of \<open>parse_xml_metadata\<close> on the raw text. When it decodes the text, the result is
  that of \<open>parse_json_metadata\<close> on the decoded value alone, which is empty for a value
  that is not an object: there is no fall back for such a text.
\<close>

theorem parse_figma_metadata_dispatch:
  "parse_figma_metadata None content = parse_xml_metadata content \<and>
   parse_figma_metadata (Some JOther) content = [] \<and>
   parse_figma_metadata (Some (JObject n t i ch)) content
     = parse_json_metadata (JObject n t i ch) [] []"
  by (simp add: parse_figma_metadata_def)

text \<open>
  C7 as stated fails: the text \<^verbatim>\<open>["<COMPONENT name=", " id=", "1"]\<close> decodes to a
  list; the result is empty, while the tag-based extraction of the raw text finds a
  record.
\<close>

theorem parse_figma_metadata_counterexample:
  "parse_figma_metadata (Some JOther) json_array_text = [] \<and>
   parse_xml_metadata json_array_text
   = [\<lparr>name = '', '', node_id = '', '', section = [], is_outlined = False,
        path = ''/, ''\<rparr>]"
  by (simp add: parse_figma_metadata_def json_array_text_parse)

section \<open>The tree of the specification\<close>

text \<open>
  C8. The page \<open>Icons\<close> with the one component \<open>icon-home\<close> of identifier \<open>1:1\<close>,
  from an empty path and section, gives exactly one record, of section \<open>Icons\<close>, path
  \<open>Icons/icon-home\<close> and not outlined.
\<close>

theorem tree_extraction_example:
  "parse_json_metadata icons_page [] []
   = [\<lparr>name = ''icon-home'', node_id = ''1:1'', section = ''Icons'', is_outlined = False,
        path = ''Icons/icon-home''\<rparr>]"
  by code_simp

section \<open>The casing of a token\<close>

text \<open>
  C9. \<open>to_pascal_case\<close> leaves \<open>HTMLParser\<close> as one token, and \<open>capitalize\<close> puts all
  its letters after the first in lower case.
\<close>

theorem to_pascal_case_acronym:
  "to_pascal_case ''HTMLParser'' = ''Htmlparser''"
  by code_simp

section \<open>Letters and delimiters\<close>

lemma upper_not_lower: "is_upper c \<Longrightarrow> \<not> is_lower c"
  by (auto simp: is_upper_def is_lower_def upper_letters_def lower_letters_def)

lemma to_upper_id: "\<not> is_lower c \<Longrightarrow> to_upper c = c"
proof -
  assume "\<not> is_lower c"
  then have "map_of (zip lower_letters upper_letters) c = None"
    by (simp add: map_of_eq_None_iff is_lower_def lower_letters_def upper_letters_def)
  then show ?thesis by (simp add: to_upper_def)
qed

lemma to_lower_id: "\<not> is_upper c \<Longrightarrow> to_lower c = c"
proof -
  assume "\<not> is_upper c"
  then have "map_of (zip upper_letters lower_letters) c = None"
    by (simp add: map_of_eq_None_iff is_upper_def lower_letters_def upper_letters_def)
  then show ?thesis by (simp add: to_lower_def)
qed

lemma to_lower_of_upper: "is_upper c \<Longrightarrow> is_lower (to_lower c)"
  by (auto simp: is_upper_def is_lower_def to_lower_def lower_letters_def upper_letters_def)

lemma to_upper_of_lower: "is_lower c \<Longrightarrow> is_upper (to_upper c)"
  by (auto simp: is_upper_def is_lower_def to_upper_def lower_letters_def upper_letters_def)

lemma letter_not_delim: "is_upper c \<or> is_lower c \<Longrightarrow> \<not> is_delim c"
  by (auto simp: is_upper_def is_lower_def is_delim_def is_space_def upper_letters_def lower_letters_def)

lemma is_delim_to_lower: "is_delim (to_lower c) \<longleftrightarrow> is_delim c"
proof (cases "is_upper c")
  case True
  then show ?thesis using to_lower_of_upper [of c] letter_not_delim by blast
next
  case False
  then show ?thesis by (simp add: to_lower_id)
qed

lemma is_delim_to_upper: "is_delim (to_upper c) \<longleftrightarrow> is_delim c"
proof (cases "is_lower c")
  case True
  then show ?thesis using to_upper_of_lower [of c] letter_not_delim by blast
next
  case False
  then show ?thesis by (simp add: to_upper_id)
qed




section \<open>The two tests for the outlined variant\<close>





lemma rmatch_Seq_Lit:
  "rmatch ic (Seq (Lit l) r) (p, s, g) =
     (if lit_ok ic l s then rmatch ic r (p + length l, drop (length l) s, g) else [])"
  by simp





























section \<open>Substrings and replacement\<close>

lemma contains_iff: "contains q s \<longleftrightarrow> (\<exists>a b. s = a @ q @ b)"
proof (induction s)
  case Nil
  then show ?case by auto
next
  case (Cons c t)
  show ?case
  proof
    assume "contains q (c # t)"
    then consider "take (length q) (c # t) = q" | "contains q t" by auto
    then show "\<exists>a b. c # t = a @ q @ b"
    proof cases
      case 1
      then have "c # t = [] @ q @ drop (length q) (c # t)"
        by (metis append_Nil append_take_drop_id)
      then show ?thesis by blast
    next
      case 2
      then obtain a b where "t = a @ q @ b" using Cons.IH by blast
      then have "c # t = (c # a) @ q @ b" by simp
      then show ?thesis by blast
    qed
  next
    assume "\<exists>a b. c # t = a @ q @ b"
    then obtain a b where ab: "c # t = a @ q @ b" by blast
    show "contains q (c # t)"
    proof (cases a)
      case Nil
      with ab have "take (length q) (c # t) = q" by simp
      then show ?thesis by simp
    next
      case (Cons x a')
      with ab have "t = a' @ q @ b" by simp
      then have "contains q t" using Cons.IH by blast
      then show ?thesis by simp
    qed
  qed
qed

lemma contains_appendI1: "contains q a \<Longrightarrow> contains q (a @ b)"
  unfolding contains_iff by (metis append.assoc)

lemma contains_appendI2: "contains q b \<Longrightarrow> contains q (a @ b)"
  unfolding contains_iff by (metis append.assoc)

lemma contains_split_char:
  assumes "c \<notin> set q" and "contains q (a @ c # b)"
  shows "contains q a \<or> contains q b"
proof -
  from assms(2) obtain x y where xy: "a @ c # b = x @ q @ y"
    unfolding contains_iff by blast
  then consider u where "a = x @ u" "u @ c # b = q @ y"
    | u where "a @ u = x" "c # b = u @ q @ y"
    by (auto simp: append_eq_append_conv2)
  then show ?thesis
  proof cases
    case 1
    from 1(2) consider v where "u = q @ v" "v @ c # b = y" | v where "u @ v = q" "c # b = v @ y"
      by (auto simp: append_eq_append_conv2)
    then show ?thesis
    proof cases
      case 1
      with \<open>a = x @ u\<close> have "a = x @ q @ v" by simp
      then show ?thesis unfolding contains_iff by blast
    next
      case 2
      show ?thesis
      proof (cases v)
        case Nil
        with 2 \<open>a = x @ u\<close> have "a = x @ q @ []" by simp
        then show ?thesis unfolding contains_iff by blast
      next
        case (Cons v1 vs)
        with 2 have "c \<in> set q" by auto
        with assms(1) show ?thesis by simp
      qed
    qed
  next
    case 2
    show ?thesis
    proof (cases u)
      case Nil
      with 2 have "c # b = q @ y" by simp
      with assms(1) have "q = []" by (cases q) auto
      then show ?thesis unfolding contains_iff by auto
    next
      case (Cons u1 us)
      with 2 have "b = us @ q @ y" by simp
      then show ?thesis unfolding contains_iff by blast
    qed
  qed
qed

lemma py_replace_absent:
  "\<not> contains old s \<Longrightarrow> py_replace old new s = s"
proof (induction old new s rule: py_replace.induct)
  case (1 old new s)
  show ?case
  proof (cases "old = []")
    case True
    with 1(3) show ?thesis by (cases s) auto
  next
    case False
    show ?thesis
    proof (cases s)
      case Nil
      with False show ?thesis by (simp add: py_replace.simps)
    next
      case (Cons c t)
      with 1(3) have nt: "take (length old) s \<noteq> old" and nc: "\<not> contains old (tl s)"
        by auto
      from 1(2) [OF False _ nt nc] Cons have "py_replace old new (tl s) = tl s" by simp
      with False Cons nt show ?thesis
        by (subst py_replace.simps) simp
    qed
  qed
qed


lemma greedy_consumes:
  "(p', s', g') \<in> set (greedy P (p, s, g)) \<Longrightarrow> \<exists>m. s = m @ s' \<and> p' = p + length m \<and> g' = g"
proof (induction s arbitrary: p)
  case Nil
  then show ?case by simp
next
  case (Cons c t)
  from Cons.prems consider "P c" "(p', s', g') \<in> set (greedy P (Suc p, t, g))"
    | "(p', s', g') = (p, c # t, g)"
    by (auto split: if_splits)
  then show ?case
  proof cases
    case 1
    from Cons.IH [OF 1(2)] obtain m where "t = m @ s'" "p' = Suc p + length m" "g' = g"
      by blast
    then have "c # t = (c # m) @ s' \<and> p' = p + length (c # m) \<and> g' = g" by simp
    then show ?thesis by blast
  next
    case 2
    then show ?thesis by simp
  qed
qed

lemma lazy_consumes:
  "(p', s', g') \<in> set (lazy P (p, s, g)) \<Longrightarrow> \<exists>m. s = m @ s' \<and> p' = p + length m \<and> g' = g"
proof (induction s arbitrary: p)
  case Nil
  then show ?case by simp
next
  case (Cons c t)
  from Cons.prems consider "P c" "(p', s', g') \<in> set (lazy P (Suc p, t, g))"
    | "(p', s', g') = (p, c # t, g)"
    by (auto split: if_splits)
  then show ?case
  proof cases
    case 1
    from Cons.IH [OF 1(2)] obtain m where "t = m @ s'" "p' = Suc p + length m" "g' = g"
      by blast
    then have "c # t = (c # m) @ s' \<and> p' = p + length (c # m) \<and> g' = g" by simp
    then show ?thesis by blast
  next
    case 2
    then show ?thesis by simp
  qed
qed

lemma lit_ok_length: "lit_ok ic l s \<Longrightarrow> length l \<le> length s"
proof -
  assume "lit_ok ic l s"
  then have "length (take (length l) s) = length l"
    by (cases ic) (auto simp: lit_ok_def lower_def dest: map_eq_imp_length_eq arg_cong [where f = length])
  then show ?thesis by simp
qed

lemma rmatch_consumes:
  "(p', s', g') \<in> set (rmatch ic r (p, s, g)) \<Longrightarrow> \<exists>m. s = m @ s' \<and> p' = p + length m"
proof (induction r arbitrary: p s g p' s' g')
  case (Lit l)
  then have ok: "lit_ok ic l s" and e: "p' = p + length l" "s' = drop (length l) s"
    by (auto split: if_splits)
  from lit_ok_length [OF ok] e have "s = take (length l) s @ s' \<and> p' = p + length (take (length l) s)"
    by simp
  then show ?case by blast
next
  case (Cls P)
  then obtain c where "s = c # s'" "p' = Suc p"
    by (auto split: list.splits if_splits)
  then have "s = [c] @ s' \<and> p' = p + length [c]" by simp
  then show ?case by blast
next
  case (Star P)
  then show ?case using greedy_consumes [of p' s' g' "cls_ok ic P" p s g] by auto
next
  case (LazyStar P)
  then show ?case using lazy_consumes [of p' s' g' "cls_ok ic P" p s g] by auto
next
  case (Alt a b)
  then show ?case by auto
next
  case (Seq a b)
  from Seq.prems obtain y where y: "y \<in> set (rmatch ic a (p, s, g))"
    and x: "(p', s', g') \<in> set (rmatch ic b y)"
    by auto
  obtain p1 s1 g1 where y1: "y = (p1, s1, g1)" by (cases y)
  from Seq.IH(1) [of p1 s1 g1 p s g] y y1 obtain m1 where m1: "s = m1 @ s1" "p1 = p + length m1"
    by blast
  from Seq.IH(2) [of p' s' g' p1 s1 g1] x y1 obtain m2 where m2: "s1 = m2 @ s'" "p' = p1 + length m2"
    by blast
  from m1 m2 have "s = (m1 @ m2) @ s' \<and> p' = p + length (m1 @ m2)" by simp
  then show ?case by blast
next
  case (Grp r)
  from Grp.prems obtain g0 where "(p', s', g0) \<in> set (rmatch ic r (p, s, g))"
    by auto
  then show ?case using Grp.IH by blast
next
  case Bol
  then show ?case by (auto split: if_splits)
next
  case Eol
  then show ?case by (auto split: if_splits)
qed

lemma match_here_consumes:
  assumes "match_here ic r p s = Some (n, g)"
  shows "0 < n \<and> n \<le> length s \<and> (\<exists>s' g0. (p + n, s', g) \<in> set (rmatch ic r (p, s, g0)) \<and> g0 = [] \<and> s = take n s @ s')"
proof -
  from assms obtain p' s' rest where hd: "rmatch ic r (p, s, []) = (p', s', g) # rest"
    and n: "n = p' - p" "p' - p \<noteq> 0"
    by (auto simp: match_here_def split: list.splits if_splits)
  then have mem: "(p', s', g) \<in> set (rmatch ic r (p, s, []))" by simp
  from rmatch_consumes [OF mem] obtain m where m: "s = m @ s'" "p' = p + length m" by blast
  with n have "n = length m" by simp
  with m n mem show ?thesis by auto
qed


lemma lit_member:
  "(p', s', g') \<in> set (rmatch False (Lit l) (p, s, g)) \<Longrightarrow> s = l @ s'"
  by (auto simp: lit_ok_def split: if_splits) (metis append_take_drop_id)

lemma attr_match_shape:
  assumes "match_here False (attr_pat nm) p s = Some (n, g)"
  shows "\<exists>x. s = (nm @ [CHR ''='', dquote]) @ x @ [dquote] @ drop n s"
proof -
  let ?L = "nm @ [CHR ''='', dquote]"
  from match_here_consumes [OF assms] obtain s' where
    mem: "(p + n, s', g) \<in> set (rmatch False (attr_pat nm) (p, s, []))" and s: "s = take n s @ s'"
    and n: "n \<le> length s"
    by blast
  from s n have s': "s' = drop n s"
    by (metis append_eq_conv_conj length_take min.absorb2)
  from mem obtain y1 where y1: "y1 \<in> set (rmatch False (Lit ?L) (p, s, []))"
    and r1: "(p + n, s', g) \<in> set (rmatch False (Seq (Star not_dquote) (Lit [dquote])) y1)"
    unfolding attr_pat_def Seqs.simps rmatch.simps(6) by auto
  obtain p1 s1 g1 where y1e: "y1 = (p1, s1, g1)" by (cases y1)
  from lit_member y1 y1e have s1: "s = ?L @ s1" by blast
  from r1 obtain y2 where y2: "y2 \<in> set (rmatch False (Star not_dquote) y1)"
    and r2: "(p + n, s', g) \<in> set (rmatch False (Lit [dquote]) y2)"
    unfolding rmatch.simps(6) by auto
  obtain p2 s2 g2 where y2e: "y2 = (p2, s2, g2)" by (cases y2)
  from rmatch_consumes [of p2 s2 g2 False "Star not_dquote" p1 s1 g1] y2 y1e y2e
  obtain x where x: "s1 = x @ s2" by blast
  from lit_member r2 y2e have "s2 = [dquote] @ s'" by blast
  with s1 x s' have "s = ?L @ x @ [dquote] @ drop n s" by simp
  then show ?thesis by blast
qed

lemma sub_attr_no_new:
  assumes q: "dquote \<notin> set q" and v: "\<not> contains q v"
  shows "contains q (u @ sub_from False (attr_pat nm)
                           (const (nm @ [CHR ''='', dquote] @ v @ [dquote])) p s)
         \<Longrightarrow> contains q (u @ s)"
proof (induction "length s" arbitrary: s p u rule: less_induct)
  case less
  let ?R = "nm @ [CHR ''='', dquote] @ v @ [dquote]"
  show ?case
  proof (cases s)
    case Nil
    with less.prems show ?thesis by simp
  next
    case (Cons c t)
    show ?thesis
    proof (cases "match_here False (attr_pat nm) p (c # t)")
      case None
      with less.prems Cons
      have "contains q ((u @ [c]) @ sub_from False (attr_pat nm) (const ?R) (Suc p) t)"
        by simp
      from less.hyps [OF _ this] Cons show ?thesis by simp
    next
      case (Some ng)
      obtain n g where ng: "ng = (n, g)" by (cases ng)
      from Some ng match_here_consumes [of False "attr_pat nm" p "c # t" n g]
      have n: "0 < n" "n \<le> length (c # t)" by auto
      from attr_match_shape Some ng obtain x where
        x: "c # t = (nm @ [CHR ''='', dquote]) @ x @ [dquote] @ drop n (c # t)"
        by blast
      from n have dr: "drop (n - 1) t = drop n (c # t)"
        by (cases n) auto
      from less.prems Cons Some ng dr
      have "contains q ((u @ ?R) @ sub_from False (attr_pat nm) (const ?R) (p + n) (drop n (c # t)))"
        by (simp add: const_def)
      moreover from n have "length (drop n (c # t)) < length s"
        using Cons by simp
      ultimately have "contains q ((u @ ?R) @ drop n (c # t))"
        using less.hyps by blast
      then have "contains q ((u @ nm @ [CHR ''='', dquote] @ v) @ dquote # drop n (c # t))"
        by simp
      from contains_split_char [OF q this]
      consider "contains q ((u @ nm @ [CHR ''='']) @ dquote # v)" | "contains q (drop n (c # t))"
        by auto
      then show ?thesis
      proof cases
        case 1
        from contains_split_char [OF q 1] v have "contains q (u @ nm @ [CHR ''=''])"
          by blast
        then have "contains q ((u @ nm @ [CHR ''='']) @ dquote # x @ [dquote] @ drop n (c # t))"
          by (rule contains_appendI1)
        with x Cons show ?thesis by simp
      next
        case 2
        then have "contains q ((u @ (nm @ [CHR ''='', dquote]) @ x @ [dquote]) @ drop n (c # t))"
          by (rule contains_appendI2)
        with x Cons show ?thesis by simp
      qed
    qed
  qed
qed

lemma re_sub_attr_no_new:
  assumes "dquote \<notin> set q" and "\<not> contains q v" and "\<not> contains q s"
  shows "\<not> contains q (re_sub False (attr_pat nm) (const (nm @ [CHR ''='', dquote] @ v @ [dquote])) s)"
  using sub_attr_no_new [OF assms(1,2), of "[]" nm 0 s] assms(3)
  by (auto simp: re_sub_def)

section \<open>Injection without the literal of the root tag\<close>

lemma canvas_step_keeps:
  assumes "\<not> contains ''<svg '' s" and "dquote \<notin> set q" and "\<not> contains q v"
    and "\<not> contains q s"
  shows "\<not> contains q
           (if b then re_sub False (attr_pat nm) (const (nm @ [CHR ''='', dquote] @ v @ [dquote])) s
            else py_replace ''<svg '' new s)"
proof (cases b)
  case True
  with re_sub_attr_no_new [OF assms(2,3,4), of nm] show ?thesis by simp
next
  case False
  with assms(1,4) show ?thesis by (simp add: py_replace_absent)
qed

lemma force_canvas_steps:
  "force_canvas d =
     (let c1 = (if contains ''viewBox'' d
                then re_sub False (attr_pat ''viewBox'')
                       (const (''viewBox'' @ [CHR ''='', dquote] @ ''0 0 24 24'' @ [dquote])) d
                else py_replace ''<svg ''
                       (''<svg viewBox='' @ [dquote] @ ''0 0 24 24'' @ [dquote] @ '' '') d);
          c2 = (if contains ''width='' c1
                then re_sub False (attr_pat ''width'')
                       (const (''width'' @ [CHR ''='', dquote] @ ''24'' @ [dquote])) c1
                else py_replace ''<svg '' (''<svg width='' @ [dquote] @ ''24'' @ [dquote] @ '' '') c1)
      in if contains ''height='' c2
         then re_sub False (attr_pat ''height'')
                (const (''height'' @ [CHR ''='', dquote] @ ''24'' @ [dquote])) c2
         else py_replace ''<svg '' (''<svg height='' @ [dquote] @ ''24'' @ [dquote] @ '' '') c2)"
  by (simp add: force_canvas_def Let_def)

lemma force_canvas_keeps:
  assumes d: "\<not> contains ''<svg '' d" and q: "dquote \<notin> set q"
    and v1: "\<not> contains q ''0 0 24 24''" and v2: "\<not> contains q ''24''"
    and a: "\<not> contains q d"
  shows "\<not> contains q (force_canvas d)"
proof -
  have s: "dquote \<notin> set ''<svg ''" "\<not> contains ''<svg '' ''0 0 24 24''"
    "\<not> contains ''<svg '' ''24''"
    by (simp_all add: dquote_def)
  define c1 where "c1 = (if contains ''viewBox'' d
                then re_sub False (attr_pat ''viewBox'')
                       (const (''viewBox'' @ [CHR ''='', dquote] @ ''0 0 24 24'' @ [dquote])) d
                else py_replace ''<svg ''
                       (''<svg viewBox='' @ [dquote] @ ''0 0 24 24'' @ [dquote] @ '' '') d)"
  define c2 where "c2 = (if contains ''width='' c1
                then re_sub False (attr_pat ''width'')
                       (const (''width'' @ [CHR ''='', dquote] @ ''24'' @ [dquote])) c1
                else py_replace ''<svg '' (''<svg width='' @ [dquote] @ ''24'' @ [dquote] @ '' '') c1)"
  have c1s: "\<not> contains ''<svg '' c1"
    unfolding c1_def by (rule canvas_step_keeps [OF d s(1,2) d])
  have c1q: "\<not> contains q c1"
    unfolding c1_def by (rule canvas_step_keeps [OF d q v1 a])
  have c2s: "\<not> contains ''<svg '' c2"
    unfolding c2_def by (rule canvas_step_keeps [OF c1s s(1,3) c1s])
  have c2q: "\<not> contains q c2"
    unfolding c2_def by (rule canvas_step_keeps [OF c1s q v2 c1q])
  have "\<not> contains q
           (if contains ''height='' c2
            then re_sub False (attr_pat ''height'')
                   (const (''height'' @ [CHR ''='', dquote] @ ''24'' @ [dquote])) c2
            else py_replace ''<svg '' (''<svg height='' @ [dquote] @ ''24'' @ [dquote] @ '' '') c2)"
    by (rule canvas_step_keeps [OF c2s q v2 c2q])
  then show ?thesis
    unfolding force_canvas_steps Let_def c2_def c1_def .
qed

text \<open>
  C10, as the code has it. Every injection replaces the literal \<open><svg \<close>. For a
  document without \<open><svg \<close>, the three steps for the canvas size inject nothing: their
  result has no \<open><svg \<close> either, and each of \<open>viewBox\<close>, \<open>width=\<close> and \<open>height=\<close> that
  the document lacks is still lacking after them. The default fill is a matter of the
  text after the clean-up: where that text has no \<open><svg \<close>, nothing is injected and
  the result is the cleaned text.
\<close>

theorem no_canvas_injection_without_svg_space:
  assumes "\<not> contains ''<svg '' d"
  shows "\<not> contains ''<svg '' (force_canvas d) \<and>
         (\<not> contains ''viewBox'' d \<longrightarrow> \<not> contains ''viewBox'' (force_canvas d)) \<and>
         (\<not> contains ''width='' d \<longrightarrow> \<not> contains ''width='' (force_canvas d)) \<and>
         (\<not> contains ''height='' d \<longrightarrow> \<not> contains ''height='' (force_canvas d)) \<and>
         (\<not> contains ''<svg '' (clean_up (force_canvas d))
            \<longrightarrow> optimize_svg d = clean_up (force_canvas d))"
proof (intro conjI impI)
  show "\<not> contains ''<svg '' (force_canvas d)"
    by (rule force_canvas_keeps [OF assms _ _ _ assms]) (simp_all add: dquote_def)
  show "\<not> contains ''viewBox'' (force_canvas d)" if "\<not> contains ''viewBox'' d"
    by (rule force_canvas_keeps [OF assms _ _ _ that]) (simp_all add: dquote_def)
  show "\<not> contains ''width='' (force_canvas d)" if "\<not> contains ''width='' d"
    by (rule force_canvas_keeps [OF assms _ _ _ that]) (simp_all add: dquote_def)
  show "\<not> contains ''height='' (force_canvas d)" if "\<not> contains ''height='' d"
    by (rule force_canvas_keeps [OF assms _ _ _ that]) (simp_all add: dquote_def)
  show "optimize_svg d = clean_up (force_canvas d)"
    if "\<not> contains ''<svg '' (clean_up (force_canvas d))"
    using that by (simp add: optimize_svg_def default_fill_def py_replace_absent)
qed

lemma plain_root_facts:
  "\<not> contains ''<svg '' ''<svg><path/></svg>''"
  "\<not> contains ''viewBox'' ''<svg><path/></svg>''"
  "\<not> contains ''width='' ''<svg><path/></svg>''"
  "\<not> contains ''height='' ''<svg><path/></svg>''"
  by simp_all

lemma plain_root_clean_up: "clean_up ''<svg><path/></svg>'' = ''<svg><path/></svg>''"
  by code_simp

lemma plain_root_canvas: "force_canvas ''<svg><path/></svg>'' = ''<svg><path/></svg>''"
  by code_simp

theorem no_canvas_injection_witness:
  "\<not> contains ''<svg '' ''<svg><path/></svg>'' \<and>
   \<not> contains ''viewBox'' (force_canvas ''<svg><path/></svg>'') \<and>
   \<not> contains ''width='' (force_canvas ''<svg><path/></svg>'') \<and>
   \<not> contains ''height='' (force_canvas ''<svg><path/></svg>'') \<and>
   optimize_svg ''<svg><path/></svg>'' = ''<svg><path/></svg>''"
  using no_canvas_injection_without_svg_space [OF plain_root_facts(1)] plain_root_facts
  by (simp add: plain_root_clean_up plain_root_canvas)

text \<open>
  C10 as stated fails for the fill: in a document whose root tag goes on with a new
  line and an \<open>id\<close>, the removal of the \<open>id\<close> takes the white space before it away and
  leaves \<open><svg \<close>, and the fill is injected.
\<close>

theorem fill_injected_without_svg_space:
  "\<not> contains ''<svg '' id_on_next_line_doc \<and>
   \<not> contains ''fill='' id_on_next_line_doc \<and>
   optimize_svg id_on_next_line_doc = ''<svg fill='' @ [dquote] @ ''currentColor'' @ [dquote] @ '' >'' \<and>
   contains ''fill='' (optimize_svg id_on_next_line_doc)"
  by code_simp

section \<open>to\_pascal\_case applied twice\<close>

lemma to_upper_not_lower: "\<not> is_lower (to_upper c)"
proof (cases "is_lower c")
  case True
  then show ?thesis
    by (auto simp: is_lower_def to_upper_def lower_letters_def upper_letters_def)
next
  case False
  then show ?thesis by (simp add: to_upper_id)
qed

lemma camel_match:
  "match_here False camel_pat p s =
     (case s of
        a # b # t \<Rightarrow> if is_lower a \<and> is_upper b then Some (2, [[a], [b]]) else None
      | _ \<Rightarrow> None)"
proof (cases s)
  case Nil
  then show ?thesis by (simp add: match_here_def camel_pat_def)
next
  case (Cons a s1)
  show ?thesis
  proof (cases s1)
    case Nil
    with Cons show ?thesis
      by (simp add: match_here_def camel_pat_def cls_ok_def)
  next
    case (Cons b t)
    with \<open>s = a # s1\<close> show ?thesis
      by (simp add: match_here_def camel_pat_def cls_ok_def)
  qed
qed

lemma camel_sub_Nil: "sub_from False camel_pat camel_repl p [] = []"
  by simp

lemma camel_sub_single: "sub_from False camel_pat camel_repl p [a] = [a]"
  by (simp add: camel_match)

lemma camel_sub_Cons:
  "sub_from False camel_pat camel_repl p (a # b # t) =
     (if is_lower a \<and> is_upper b
      then a # CHR '' '' # b # sub_from False camel_pat camel_repl (p + 2) t
      else a # sub_from False camel_pat camel_repl (Suc p) (b # t))"
  by (simp add: camel_match camel_repl_def group_def)

lemma capitalize_snoc:
  "cur \<noteq> [] \<Longrightarrow> capitalize cur = cur \<Longrightarrow> \<not> is_upper a \<Longrightarrow> capitalize (cur @ [a]) = cur @ [a]"
  by (cases cur) (auto simp: to_lower_id)

lemma space_is_space: "is_space (CHR '' '')"
  by (simp add: is_space_def)

lemma camel_tokens_fixed:
  assumes "\<forall>c \<in> set (cur @ s). \<not> is_space c"
    and "cur \<noteq> [] \<longrightarrow> capitalize cur = cur \<and> (s = [] \<or> \<not> is_upper (hd s))"
    and "cur = [] \<longrightarrow> s = [] \<or> \<not> is_lower (hd s)"
    and "camel_humps s"
  shows "concat (map capitalize (filter (\<lambda>w. w \<noteq> [])
           (split_acc cur (sub_from False camel_pat camel_repl p s)))) = cur @ s"
  using assms
proof (induction "length s" arbitrary: s cur p rule: less_induct)
  case less
  show ?case
  proof (cases s)
    case Nil
    with less.prems(2) show ?thesis by (cases "cur = []") auto
  next
    case (Cons a s1)
    from less.prems(1) Cons have nsa: "\<not> is_space a" by simp
    have cap: "capitalize (cur @ [a]) = cur @ [a]"
    proof (cases "cur = []")
      case True
      with less.prems(3) Cons show ?thesis by (simp add: to_upper_id)
    next
      case False
      with less.prems(2) Cons show ?thesis by (simp add: capitalize_snoc)
    qed
    show ?thesis
    proof (cases s1)
      case Nil
      with Cons nsa cap show ?thesis by (simp add: camel_sub_single del: sub_from.simps)
    next
      case s1: (Cons b t)
      from less.prems(4) Cons s1 have hb: "is_upper b \<longrightarrow> is_lower a" and ht: "upper_follows_lower b t"
        by (simp_all add: camel_humps_def)
      from less.prems(1) Cons s1 have nsb: "\<not> is_space b" by simp
      show ?thesis
      proof (cases "is_lower a \<and> is_upper b")
        case True
        have "concat (map capitalize (filter (\<lambda>w. w \<noteq> [])
                (split_acc [b] (sub_from False camel_pat camel_repl (p + 2) t)))) = [b] @ t"
        proof (rule less.hyps)
          show "length t < length s" using Cons s1 by simp
          show "\<forall>c \<in> set ([b] @ t). \<not> is_space c" using less.prems(1) Cons s1 by simp
          show "[b] \<noteq> [] \<longrightarrow> capitalize [b] = [b] \<and> (t = [] \<or> \<not> is_upper (hd t))"
            using True ht upper_not_lower [of b] by (cases t) (auto simp: to_upper_id)
          show "[b] = [] \<longrightarrow> t = [] \<or> \<not> is_lower (hd t)" by simp
          show "camel_humps t" using ht by (cases t) (auto simp: camel_humps_def)
        qed
        moreover have "sub_from False camel_pat camel_repl p (a # b # t)
              = a # CHR '' '' # b # sub_from False camel_pat camel_repl (p + 2) t"
          using True by (simp add: camel_sub_Cons del: sub_from.simps)
        ultimately show ?thesis
          using Cons s1 nsa nsb cap by (simp add: space_is_space del: sub_from.simps)
      next
        case False
        have "concat (map capitalize (filter (\<lambda>w. w \<noteq> [])
                (split_acc (cur @ [a]) (sub_from False camel_pat camel_repl (Suc p) (b # t)))))
              = (cur @ [a]) @ b # t"
        proof (rule less.hyps)
          show "length (b # t) < length s" using Cons s1 by simp
          show "\<forall>c \<in> set ((cur @ [a]) @ b # t). \<not> is_space c" using less.prems(1) Cons s1 by simp
          show "cur @ [a] \<noteq> [] \<longrightarrow>
                capitalize (cur @ [a]) = cur @ [a] \<and> (b # t = [] \<or> \<not> is_upper (hd (b # t)))"
            using cap hb False by auto
          show "cur @ [a] = [] \<longrightarrow> b # t = [] \<or> \<not> is_lower (hd (b # t))" by simp
          show "camel_humps (b # t)" using ht by (simp add: camel_humps_def)
        qed
        moreover have "sub_from False camel_pat camel_repl p (a # b # t)
              = a # sub_from False camel_pat camel_repl (Suc p) (b # t)"
          using False by (auto simp add: camel_sub_Cons simp del: sub_from.simps)
        ultimately show ?thesis
          using Cons s1 nsa by (simp del: sub_from.simps)
      qed
    qed
  qed
qed


lemma delims_match_None: "\<not> is_delim c \<Longrightarrow> match_here False delims_pat p (c # t) = None"
  by (simp add: match_here_def delims_pat_def Plus_def cls_ok_def)

lemma greedy_hd_pos:
  "\<exists>p' s' g' rest. greedy P (p, s, g) = (p', s', g') # rest \<and> p \<le> p'"
proof -
  have ne: "greedy P (p, s, g) \<noteq> []" by (cases s) auto
  then obtain y rest where y: "greedy P (p, s, g) = y # rest" by (cases "greedy P (p, s, g)") auto
  obtain p' s' g' where ye: "y = (p', s', g')" by (cases y)
  with y have "(p', s', g') \<in> set (greedy P (p, s, g))" by simp
  from greedy_consumes [OF this] have "p \<le> p'" by auto
  with y ye show ?thesis by blast
qed

lemma delims_match_Some: "is_delim c \<Longrightarrow> \<exists>n g. match_here False delims_pat p (c # t) = Some (n, g)"
proof -
  assume d: "is_delim c"
  from greedy_hd_pos [of "cls_ok False is_delim" "Suc p" t "[]"]
  obtain p' s' g' rest where h: "greedy (cls_ok False is_delim) (Suc p, t, []) = (p', s', g') # rest"
    and le: "Suc p \<le> p'" by blast
  from d h le have "match_here False delims_pat p (c # t) = Some (p' - p, g')"
    by (simp add: match_here_def delims_pat_def Plus_def cls_ok_def)
  then show ?thesis by blast
qed

lemma split_no_delim:
  "\<forall>c \<in> set s. \<not> is_delim c \<Longrightarrow> split_from False delims_pat p cur s = [cur @ s]"
proof (induction s arbitrary: p cur)
  case Nil
  then show ?case by simp
next
  case (Cons c t)
  then have "match_here False delims_pat p (c # t) = None"
    by (simp add: delims_match_None)
  with Cons show ?case by simp
qed

lemma split_pieces_no_delim:
  "w \<in> set (split_from False delims_pat p cur s) \<Longrightarrow> \<forall>c \<in> set cur. \<not> is_delim c \<Longrightarrow>
   \<forall>c \<in> set w. \<not> is_delim c"
proof (induction "length s" arbitrary: s p cur rule: less_induct)
  case less
  show ?case
  proof (cases s)
    case Nil
    with less.prems show ?thesis by simp
  next
    case (Cons c t)
    show ?thesis
    proof (cases "match_here False delims_pat p (c # t)")
      case None
      then have nd: "\<not> is_delim c" using delims_match_Some [of c p t] by auto
      from less.prems(1) Cons None
      have "w \<in> set (split_from False delims_pat (Suc p) (cur @ [c]) t)" by simp
      moreover have "length t < length s" using Cons by simp
      moreover have "\<forall>x \<in> set (cur @ [c]). \<not> is_delim x" using less.prems(2) nd by simp
      ultimately show ?thesis using less.hyps by blast
    next
      case (Some ng)
      obtain n g where ng: "ng = (n, g)" by (cases ng)
      from less.prems(1) Cons Some ng
      consider "w = cur" | "w \<in> set (split_from False delims_pat (p + n) [] (drop (n - 1) t))"
        by auto
      then show ?thesis
      proof cases
        case 1
        with less.prems(2) show ?thesis by simp
      next
        case 2
        moreover have "length (drop (n - 1) t) < length s" using Cons by simp
        ultimately show ?thesis using less.hyps [of "drop (n - 1) t" "p + n" "[]"] by simp
      qed
    qed
  qed
qed

lemma camel_chars:
  "c \<in> set (sub_from False camel_pat camel_repl p s) \<Longrightarrow> c \<in> set s \<or> c = CHR '' ''"
proof (induction "length s" arbitrary: s p rule: less_induct)
  case less
  show ?case
  proof (cases s)
    case Nil
    with less.prems show ?thesis by simp
  next
    case (Cons a s1)
    show ?thesis
    proof (cases s1)
      case Nil
      with Cons less.prems show ?thesis by (simp add: camel_sub_single del: sub_from.simps)
    next
      case s1: (Cons b t)
      show ?thesis
      proof (cases "is_lower a \<and> is_upper b")
        case True
        then have "sub_from False camel_pat camel_repl p (a # b # t)
              = a # CHR '' '' # b # sub_from False camel_pat camel_repl (p + 2) t"
          by (simp add: camel_sub_Cons del: sub_from.simps)
        with less.prems Cons s1
        consider "c = a" | "c = CHR '' ''" | "c = b"
          | "c \<in> set (sub_from False camel_pat camel_repl (p + 2) t)"
          by auto
        then show ?thesis
        proof cases
          case 4
          from less.hyps [OF _ 4] Cons s1 show ?thesis by auto
        qed (use Cons s1 in auto)
      next
        case False
        then have "sub_from False camel_pat camel_repl p (a # b # t)
              = a # sub_from False camel_pat camel_repl (Suc p) (b # t)"
          by (auto simp add: camel_sub_Cons simp del: sub_from.simps)
        with less.prems Cons s1
        consider "c = a" | "c \<in> set (sub_from False camel_pat camel_repl (Suc p) (b # t))"
          by auto
        then show ?thesis
        proof cases
          case 2
          from less.hyps [OF _ 2] Cons s1 show ?thesis by auto
        qed (use Cons in auto)
      qed
    qed
  qed
qed

lemma split_acc_chars:
  "w \<in> set (split_acc cur s) \<Longrightarrow> c \<in> set w \<Longrightarrow>
   c \<in> set cur \<or> (c \<in> set s \<and> \<not> is_space c)"
proof (induction s arbitrary: cur)
  case Nil
  then show ?case by (auto split: if_splits)
next
  case (Cons a t)
  show ?case
  proof (cases "is_space a")
    case True
    with Cons.prems(1) consider "w = cur" | "w \<in> set (split_acc [] t)"
      by (auto split: if_splits)
    then show ?thesis
    proof cases
      case 1
      with Cons.prems(2) show ?thesis by simp
    next
      case 2
      from Cons.IH [OF 2 Cons.prems(2)] show ?thesis by auto
    qed
  next
    case False
    with Cons.prems(1) have "w \<in> set (split_acc (cur @ [a]) t)" by simp
    from Cons.IH [OF this Cons.prems(2)] False show ?thesis by auto
  qed
qed


lemma space_is_delim: "is_space c \<Longrightarrow> is_delim c"
  by (simp add: is_delim_def)

lemma capitalize_chars:
  "c \<in> set (capitalize w) \<Longrightarrow> \<exists>c0 \<in> set w. c = to_upper c0 \<or> c = to_lower c0"
  by (cases w) auto

lemma expanded_words_no_delim:
  assumes "w \<in> set (concat (map (\<lambda>word. py_split (re_sub False camel_pat camel_repl word))
                              (re_split False delims_pat s)))"
    and "c \<in> set w"
  shows "\<not> is_delim c"
proof -
  from assms(1) obtain word where word: "word \<in> set (re_split False delims_pat s)"
    and w: "w \<in> set (py_split (re_sub False camel_pat camel_repl word))"
    by auto
  from word have nd: "\<forall>x \<in> set word. \<not> is_delim x"
    unfolding re_split_def by (rule split_pieces_no_delim) simp
  from w assms(2) have cs: "c \<in> set (re_sub False camel_pat camel_repl word)"
    and ns: "\<not> is_space c"
    unfolding py_split_def using split_acc_chars [of w "[]" _ c] by auto
  from cs have "c \<in> set word \<or> c = CHR '' ''"
    unfolding re_sub_def by (rule camel_chars)
  with ns space_is_space have "c \<in> set word" by auto
  with nd show ?thesis by blast
qed

lemma to_pascal_case_no_delim: "c \<in> set (to_pascal_case x) \<Longrightarrow> \<not> is_delim c"
proof -
  assume "c \<in> set (to_pascal_case x)"
  then obtain w where w: "w \<in> set (concat (map (\<lambda>word. py_split (re_sub False camel_pat camel_repl word))
                              (re_split False delims_pat (re_sub True extension_pat (const []) x))))"
    and c: "c \<in> set (capitalize w)"
    by (auto simp: to_pascal_case_def Let_def)
  from capitalize_chars [OF c] obtain c0 where c0: "c0 \<in> set w" "c = to_upper c0 \<or> c = to_lower c0"
    by blast
  from expanded_words_no_delim [OF w c0(1)] have "\<not> is_delim c0" .
  with c0(2) show ?thesis
    using is_delim_to_lower is_delim_to_upper by auto
qed

lemma concat_capitalize_hd:
  "\<forall>w \<in> set ws. w \<noteq> [] \<Longrightarrow>
   concat (map capitalize ws) = [] \<or> \<not> is_lower (hd (concat (map capitalize ws)))"
proof (cases ws)
  case Nil
  then show ?thesis by simp
next
  case (Cons w ws')
  assume "\<forall>w \<in> set ws. w \<noteq> []"
  with Cons obtain c cs where "w = c # cs" by (cases w) auto
  with Cons show ?thesis by (simp add: to_upper_not_lower)
qed

lemma to_pascal_case_hd: "to_pascal_case x = [] \<or> \<not> is_lower (hd (to_pascal_case x))"
  unfolding to_pascal_case_def Let_def
  by (rule concat_capitalize_hd) simp

lemma sub_from_no_match:
  "\<not> search_from ic r p s \<Longrightarrow> sub_from ic r repl p s = s"
proof (induction s arbitrary: p)
  case Nil
  then show ?case by simp
next
  case (Cons c t)
  then have "rmatch ic r (p, c # t, []) = []" and "\<not> search_from ic r (Suc p) t"
    by auto
  with Cons.IH show ?case by (simp add: match_here_def)
qed

lemma re_sub_no_match: "\<not> re_search ic r s \<Longrightarrow> re_sub ic r repl s = s"
  by (simp add: re_search_def re_sub_def sub_from_no_match)

lemma to_pascal_case_fixed:
  assumes nd: "\<forall>c \<in> set s. \<not> is_delim c"
    and hd: "s = [] \<or> \<not> is_lower (hd s)"
    and ext: "\<not> re_search True extension_pat s"
    and humps: "camel_humps s"
  shows "to_pascal_case s = s"
proof -
  have 1: "re_sub True extension_pat (const []) s = s"
    using ext by (rule re_sub_no_match)
  have 2: "re_split False delims_pat s = [s]"
    using split_no_delim [OF nd, of 0 "[]"] by (simp add: re_split_def)
  have "concat (map capitalize (filter (\<lambda>w. w \<noteq> [])
           (split_acc [] (sub_from False camel_pat camel_repl 0 s)))) = [] @ s"
  proof (rule camel_tokens_fixed)
    show "\<forall>c \<in> set ([] @ s). \<not> is_space c" using nd space_is_delim by auto
    show "[] \<noteq> [] \<longrightarrow> capitalize [] = [] \<and> (s = [] \<or> \<not> is_upper (hd s))" by simp
    show "[] = [] \<longrightarrow> s = [] \<or> \<not> is_lower (hd s)" using hd by simp
    show "camel_humps s" by (rule humps)
  qed
  then show ?thesis
    unfolding to_pascal_case_def Let_def 1 2 by (simp add: py_split_def re_sub_def)
qed

lemma to_pascal_case_stable:
  assumes "\<not> re_search True extension_pat (to_pascal_case x)"
    and "camel_humps (to_pascal_case x)"
  shows "to_pascal_case (to_pascal_case x) = to_pascal_case x"
  using to_pascal_case_no_delim [of _ x] to_pascal_case_hd [of x] assms
  by (intro to_pascal_case_fixed) blast+

lemma sub_const_length:
  "length (sub_from ic r (const []) p s) \<le> length s"
proof (induction "length s" arbitrary: s p rule: less_induct)
  case less
  show ?case
  proof (cases s)
    case Nil
    then show ?thesis by simp
  next
    case (Cons c t)
    show ?thesis
    proof (cases "match_here ic r p (c # t)")
      case None
      have "length (sub_from ic r (const []) (Suc p) t) \<le> length t"
        using less.hyps [of t] Cons by simp
      with None Cons show ?thesis by simp
    next
      case (Some ng)
      obtain n g where ng: "ng = (n, g)" by (cases ng)
      have "length (sub_from ic r (const []) (p + n) (drop (n - 1) t)) \<le> length (drop (n - 1) t)"
        using less.hyps [of "drop (n - 1) t"] Cons by simp
      with Some ng Cons show ?thesis by (simp add: const_def)
    qed
  qed
qed

lemma sub_const_shrinks:
  assumes "\<And>p s. rmatch ic r (p, s, []) \<noteq> [] \<Longrightarrow> match_here ic r p s \<noteq> None"
  shows "search_from ic r p s \<Longrightarrow> length (sub_from ic r (const []) p s) < length s"
proof (induction s arbitrary: p)
  case Nil
  then have "match_here ic r p [] \<noteq> None" using assms by simp
  then obtain n g where "match_here ic r p [] = Some (n, g)" by auto
  from match_here_consumes [OF this] have "0 < n" "n \<le> length ([]::string)" by blast+
  then show ?case by simp
next
  case (Cons c t)
  show ?case
  proof (cases "match_here ic r p (c # t)")
    case None
    with assms have "rmatch ic r (p, c # t, []) = []" by blast
    with Cons.prems have "search_from ic r (Suc p) t" by simp
    from Cons.IH [OF this] None show ?thesis by simp
  next
    case (Some ng)
    obtain n g where ng: "ng = (n, g)" by (cases ng)
    have eq: "sub_from ic r (const []) p (c # t)
              = sub_from ic r (const []) (p + n) (drop (n - 1) t)"
      using Some ng by (simp add: const_def)
    have "length (sub_from ic r (const []) (p + n) (drop (n - 1) t)) \<le> length (drop (n - 1) t)"
      by (rule sub_const_length)
    then show ?thesis unfolding eq by simp
  qed
qed

lemma extension_match_here:
  "rmatch True extension_pat (p, s, []) \<noteq> [] \<Longrightarrow> match_here True extension_pat p s \<noteq> None"
proof -
  assume ne: "rmatch True extension_pat (p, s, []) \<noteq> []"
  then obtain y rest where y: "rmatch True extension_pat (p, s, []) = y # rest"
    by (cases "rmatch True extension_pat (p, s, [])") auto
  obtain p' s' g' where ye: "y = (p', s', g')" by (cases y)
  let ?t = "Seq (Grp (Alt (Lit ''svg'') (Alt (Lit ''png'') (Lit ''jpg'')))) Eol"
  have e: "extension_pat = Seq (Lit ''.'') ?t"
    by (simp add: extension_pat_def)
  from y ye have mem: "(p', s', g') \<in> set (rmatch True (Seq (Lit ''.'') ?t) (p, s, []))"
    unfolding e by simp
  then have "(p', s', g') \<in> set (rmatch True ?t (p + length ''.'', drop (length ''.'') s, []))"
    unfolding rmatch_Seq_Lit by (auto split: if_splits)
  from rmatch_consumes [OF this] have "p < p'" by auto
  with y ye show ?thesis by (simp add: match_here_def)
qed

lemma extension_strip_shrinks:
  "re_search True extension_pat s \<Longrightarrow>
   length (re_sub True extension_pat (const []) s) < length s"
  unfolding re_search_def re_sub_def
  by (rule sub_const_shrinks) (rule extension_match_here)


lemma split_acc_concat:
  "concat (split_acc cur s) = cur @ filter (\<lambda>c. \<not> is_space c) s"
  by (induction s arbitrary: cur) auto

lemma camel_nonspace:
  "filter (\<lambda>c. \<not> is_space c) (sub_from False camel_pat camel_repl p s)
   = filter (\<lambda>c. \<not> is_space c) s"
proof (induction "length s" arbitrary: s p rule: less_induct)
  case less
  show ?case
  proof (cases s)
    case Nil
    then show ?thesis by simp
  next
    case (Cons a s1)
    show ?thesis
    proof (cases s1)
      case Nil
      with Cons show ?thesis by (simp add: camel_sub_single del: sub_from.simps)
    next
      case s1: (Cons b t)
      show ?thesis
      proof (cases "is_lower a \<and> is_upper b")
        case True
        then have "sub_from False camel_pat camel_repl p (a # b # t)
              = a # CHR '' '' # b # sub_from False camel_pat camel_repl (p + 2) t"
          by (simp add: camel_sub_Cons del: sub_from.simps)
        moreover have "filter (\<lambda>c. \<not> is_space c) (sub_from False camel_pat camel_repl (p + 2) t)
              = filter (\<lambda>c. \<not> is_space c) t"
          using less.hyps [of t] Cons s1 by simp
        ultimately show ?thesis using Cons s1 by (simp add: space_is_space del: sub_from.simps)
      next
        case False
        then have "sub_from False camel_pat camel_repl p (a # b # t)
              = a # sub_from False camel_pat camel_repl (Suc p) (b # t)"
          by (auto simp add: camel_sub_Cons simp del: sub_from.simps)
        moreover have "filter (\<lambda>c. \<not> is_space c) (sub_from False camel_pat camel_repl (Suc p) (b # t))
              = filter (\<lambda>c. \<not> is_space c) (b # t)"
          using less.hyps [of "b # t"] Cons s1 by simp
        ultimately show ?thesis using Cons s1 by (simp del: sub_from.simps)
      qed
    qed
  qed
qed

lemma word_tokens_length:
  "length (concat (py_split (re_sub False camel_pat camel_repl word))) \<le> length word"
  by (simp add: py_split_def re_sub_def split_acc_concat camel_nonspace)

lemma split_from_length:
  "length (concat (split_from ic r p cur s)) \<le> length cur + length s"
proof (induction "length s" arbitrary: s p cur rule: less_induct)
  case less
  show ?case
  proof (cases s)
    case Nil
    then show ?thesis by simp
  next
    case (Cons c t)
    show ?thesis
    proof (cases "match_here ic r p (c # t)")
      case None
      have "length t < length s" using Cons by simp
      from less.hyps [OF this, of "Suc p" "cur @ [c]"]
      have "length (concat (split_from ic r (Suc p) (cur @ [c]) t)) \<le> length (cur @ [c]) + length t" .
      with None Cons show ?thesis by simp
    next
      case (Some ng)
      obtain n g where ng: "ng = (n, g)" by (cases ng)
      have "length (drop (n - 1) t) < length s" using Cons by simp
      from less.hyps [OF this, of "p + n" "[]"]
      have "length (concat (split_from ic r (p + n) [] (drop (n - 1) t)))
            \<le> length ([]::string) + length (drop (n - 1) t)" .
      with Some ng Cons show ?thesis by simp
    qed
  qed
qed

lemma concat_map_length:
  "(\<And>w. length (concat (f w)) \<le> length w) \<Longrightarrow>
   length (concat (concat (map f ws))) \<le> length (concat ws)"
  by (induction ws) (auto intro: add_mono)

lemma concat_capitalize_length:
  "length (concat (map capitalize ws)) = length (concat ws)"
proof (induction ws)
  case Nil
  then show ?case by simp
next
  case (Cons w ws)
  have "length (capitalize w) = length w" by (cases w) simp_all
  with Cons show ?case by simp
qed

lemma concat_filter_nonempty: "concat (filter (\<lambda>w. w \<noteq> []) ws) = concat ws"
  by (induction ws) auto

lemma to_pascal_case_length:
  "length (to_pascal_case s) \<le> length (re_sub True extension_pat (const []) s)"
proof -
  let ?n = "re_sub True extension_pat (const []) s"
  have "length (to_pascal_case s)
        = length (concat (concat (map (\<lambda>word. py_split (re_sub False camel_pat camel_repl word))
                                    (re_split False delims_pat ?n))))"
    by (simp add: to_pascal_case_def Let_def concat_capitalize_length concat_filter_nonempty)
  also have "\<dots> \<le> length (concat (re_split False delims_pat ?n))"
    by (rule concat_map_length) (rule word_tokens_length)
  also have "\<dots> \<le> length ?n"
    using split_from_length [of False delims_pat 0 "[]" ?n] by (simp add: re_split_def)
  finally show ?thesis .
qed

lemma to_pascal_case_strips_extension:
  "re_search True extension_pat s \<Longrightarrow> to_pascal_case s \<noteq> s"
  using to_pascal_case_length [of s] extension_strip_shrinks [of s] by auto

lemma icon_home_canonical: "to_pascal_case ''icon-home'' = ''IconHome''"
  by code_simp

lemma icon_home_no_extension: "\<not> re_search True extension_pat ''IconHome''"
  by code_simp

lemma icon_home_humps: "camel_humps ''IconHome''"
  by code_simp

text \<open>
  C2, as the code has it. Let every upper-case letter of the result of
  \<open>to_pascal_case\<close> but its first character stand right after a lower-case letter.
  Then \<open>to_pascal_case\<close> applied to the result gives the result again exactly when the
  result does not end with one of the extensions \<open>.svg\<close>, \<open>.png\<close> and \<open>.jpg\<close>, in any
  casing.
\<close>

theorem to_pascal_case_twice:
  assumes "camel_humps (to_pascal_case x)"
  shows "to_pascal_case (to_pascal_case x) = to_pascal_case x
         \<longleftrightarrow> \<not> re_search True extension_pat (to_pascal_case x)"
  using to_pascal_case_stable [OF _ assms] to_pascal_case_strips_extension [of "to_pascal_case x"]
  by blast

theorem to_pascal_case_twice_witness:
  "camel_humps (to_pascal_case ''icon-home'') \<and>
   \<not> re_search True extension_pat (to_pascal_case ''icon-home'') \<and>
   to_pascal_case (to_pascal_case ''icon-home'') = ''IconHome''"
proof -
  have a: "\<not> re_search True extension_pat (to_pascal_case ''icon-home'')"
    by (simp add: icon_home_canonical icon_home_no_extension)
  have b: "camel_humps (to_pascal_case ''icon-home'')"
    by (simp add: icon_home_canonical icon_home_humps)
  from to_pascal_case_twice [OF b] a b show ?thesis
    by (simp add: icon_home_canonical)
qed

text \<open>
  C2 as stated fails: one extension is stripped at each application, so \<open>a.svg.svg\<close>
  gives \<open>A.svg\<close> and then \<open>A\<close>; and \<open>a-b\<close> gives \<open>AB\<close>, which \<open>capitalize\<close> turns
  into \<open>Ab\<close>.
\<close>

theorem to_pascal_case_twice_counterexample:
  "to_pascal_case ''a.svg.svg'' = ''A.svg'' \<and> to_pascal_case ''A.svg'' = ''A'' \<and>
   ''A'' \<noteq> ''A.svg'' \<and>
   to_pascal_case ''a-b'' = ''AB'' \<and> to_pascal_case ''AB'' = ''Ab'' \<and> ''Ab'' \<noteq> ''AB''"
  by code_simp

end
